theory Spec2Isabelle
  imports Complex_Main
begin

section \<open>JavaScript numbers\<close>

text \<open>
  A JavaScript number is an IEEE-754 double. The model keeps its three special values
  apart and takes a finite double as the real number it denotes: \<open>Num r\<close>. Arithmetic on
  finite values is exact real arithmetic, so rounding, overflow to an infinity and the sign
  of zero are not modelled. For \<open>RandomLCG\<close> this loses nothing on the states the class can
  reach: its seed is an integer below \<open>2^32\<close>, the largest intermediate value
  \<open>(m - 1) * a + c\<close> is below \<open>2^53\<close>, and division by \<open>m = 2^32\<close> only changes the exponent.
  The two quotients that a double would round are \<open>x / (m - 1)\<close> in \<open>nextFloat\<close> and
  \<open>(x / m) * n\<close> in \<open>nextRange_\<close> for large \<open>n\<close>; they are the exact quotients here.
\<close>

datatype jsnum = Num real | NaN | PosInf | NegInf

text \<open>The comparisons \<open><\<close>, \<open><=\<close>, \<open>>=\<close>, \<open>!=\<close> and \<open>==\<close>: with \<open>NaN\<close> on either side
  every comparison but \<open>!=\<close> is false.\<close>

fun js_lt :: "jsnum \<Rightarrow> jsnum \<Rightarrow> bool" where
  "js_lt (Num x) (Num y) = (x < y)"
| "js_lt NaN _ = False"
| "js_lt _ NaN = False"
| "js_lt NegInf NegInf = False"
| "js_lt NegInf _ = True"
| "js_lt PosInf _ = False"
| "js_lt (Num x) PosInf = True"
| "js_lt (Num x) NegInf = False"

fun js_eq :: "jsnum \<Rightarrow> jsnum \<Rightarrow> bool" where
  "js_eq (Num x) (Num y) = (x = y)"
| "js_eq PosInf PosInf = True"
| "js_eq NegInf NegInf = True"
| "js_eq _ _ = False"

definition js_le :: "jsnum \<Rightarrow> jsnum \<Rightarrow> bool" where
  "js_le x y = (js_lt x y \<or> js_eq x y)"

definition js_ge :: "jsnum \<Rightarrow> jsnum \<Rightarrow> bool" where
  "js_ge x y = js_le y x"

definition js_ne :: "jsnum \<Rightarrow> jsnum \<Rightarrow> bool" where
  "js_ne x y = (\<not> js_eq x y)"

text \<open>\<open>Math.abs\<close> and \<open>Math.floor\<close>.\<close>

fun js_abs :: "jsnum \<Rightarrow> jsnum" where
  "js_abs (Num x) = Num \<bar>x\<bar>"
| "js_abs NaN = NaN"
| "js_abs PosInf = PosInf"
| "js_abs NegInf = PosInf"

fun js_floor :: "jsnum \<Rightarrow> jsnum" where
  "js_floor (Num x) = Num (of_int \<lfloor>x\<rfloor>)"
| "js_floor NaN = NaN"
| "js_floor PosInf = PosInf"
| "js_floor NegInf = NegInf"

text \<open>Unary minus, \<open>+\<close>, \<open>-\<close>, \<open>*\<close> and \<open>/\<close>. A zero divisor is taken as \<open>+0\<close>.\<close>

fun js_neg :: "jsnum \<Rightarrow> jsnum" where
  "js_neg (Num x) = Num (- x)"
| "js_neg NaN = NaN"
| "js_neg PosInf = NegInf"
| "js_neg NegInf = PosInf"

fun js_add :: "jsnum \<Rightarrow> jsnum \<Rightarrow> jsnum" where
  "js_add (Num x) (Num y) = Num (x + y)"
| "js_add NaN _ = NaN"
| "js_add _ NaN = NaN"
| "js_add PosInf NegInf = NaN"
| "js_add NegInf PosInf = NaN"
| "js_add PosInf _ = PosInf"
| "js_add NegInf _ = NegInf"
| "js_add (Num x) PosInf = PosInf"
| "js_add (Num x) NegInf = NegInf"

definition js_sub :: "jsnum \<Rightarrow> jsnum \<Rightarrow> jsnum" where
  "js_sub x y = js_add x (js_neg y)"

text \<open>The sign of a number as \<open>-1\<close>, \<open>0\<close> or \<open>1\<close>, and an infinity of a given sign; a product
  or quotient with an infinite operand is decided by the signs alone.\<close>

fun js_sign :: "jsnum \<Rightarrow> int" where
  "js_sign (Num x) = (if x < 0 then - 1 else if x = 0 then 0 else 1)"
| "js_sign NaN = 0"
| "js_sign PosInf = 1"
| "js_sign NegInf = - 1"

definition js_inf :: "int \<Rightarrow> jsnum" where
  "js_inf s = (if s = 0 then NaN else if 0 < s then PosInf else NegInf)"

fun js_mul :: "jsnum \<Rightarrow> jsnum \<Rightarrow> jsnum" where
  "js_mul (Num x) (Num y) = Num (x * y)"
| "js_mul NaN _ = NaN"
| "js_mul _ NaN = NaN"
| "js_mul x y = js_inf (js_sign x * js_sign y)"

fun js_div :: "jsnum \<Rightarrow> jsnum \<Rightarrow> jsnum" where
  "js_div (Num x) (Num y) = (if y = 0 then js_inf (js_sign (Num x)) else Num (x / y))"
| "js_div NaN _ = NaN"
| "js_div _ NaN = NaN"
| "js_div (Num x) _ = Num 0"
| "js_div PosInf (Num y) = (if y < 0 then NegInf else PosInf)"
| "js_div NegInf (Num y) = (if y < 0 then PosInf else NegInf)"
| "js_div _ _ = NaN"

text \<open>The remainder \<open>%\<close>: it has the sign of the dividend, is \<open>NaN\<close> for an infinite dividend
  or a zero divisor, and is the dividend itself for an infinite divisor.\<close>

definition trunc :: "real \<Rightarrow> int" where
  "trunc x = (if 0 \<le> x then \<lfloor>x\<rfloor> else \<lceil>x\<rceil>)"

fun js_rem :: "jsnum \<Rightarrow> jsnum \<Rightarrow> jsnum" where
  "js_rem (Num x) (Num y) = (if y = 0 then NaN else Num (x - y * of_int (trunc (x / y))))"
| "js_rem NaN _ = NaN"
| "js_rem _ NaN = NaN"
| "js_rem (Num x) _ = Num x"
| "js_rem _ _ = NaN"

section \<open>RandomLCG: the linear congruential generator\<close>

text \<open>The object has one field, \<open>seed_\<close>. Every method takes the object and returns its
  outcome together with the object as the method leaves it: \<open>Inl\<close> an error that was
  thrown (with the state at the throw), \<open>Inr\<close> the returned value. An Isabelle name cannot
  end in an underscore: the field \<open>seed_\<close> is \<open>seed_priv\<close>, and the private methods
  \<open>nextInt_\<close> and \<open>nextRange_\<close> are \<open>nextInt_priv\<close> and \<open>nextRange_priv\<close>.\<close>

record RandomLCG_state =
  seed_priv :: jsnum

datatype error =
    SeedNegative jsnum
  | SeedTooLarge jsnum
  | SeedNotInteger jsnum
  | NotPositive
  | AssertionFailed
  | RangeError

text \<open>The constants \<open>RandomLCG.m\<close>, \<open>RandomLCG.a\<close> and \<open>RandomLCG.c\<close>.\<close>

definition RandomLCG_m :: real where
  "RandomLCG_m = 4294967296"

definition RandomLCG_a :: real where
  "RandomLCG_a = 1664525"

definition RandomLCG_c :: real where
  "RandomLCG_c = 1013904223"

text \<open>\<open>RandomLCG.checkSeed\<close>: three tests in the source's order; \<open>None\<close> when none throws.\<close>

definition checkSeed :: "jsnum \<Rightarrow> error option" where
  "checkSeed seed =
     (if js_lt seed (Num 0) then Some (SeedNegative seed)
      else if js_ge seed (Num RandomLCG_m) then Some (SeedTooLarge seed)
      else if js_ne seed (js_floor seed) then Some (SeedNotInteger seed)
      else None)"

text \<open>The constructor. \<open>now\<close> is the value of \<open>goog.now()\<close>, read only when the seed argument
  is \<open>undefined\<close> (\<open>None\<close>). The last statement is the assertion on the constants.\<close>

definition RandomLCG :: "jsnum \<Rightarrow> jsnum option \<Rightarrow> error + RandomLCG_state" where
  "RandomLCG now seed =
     (let seed1 = (case seed of None \<Rightarrow> now | Some s \<Rightarrow> s);
          seed2 = js_rem (js_floor (js_abs seed1)) (Num RandomLCG_m)
      in case checkSeed seed2 of
           Some e \<Rightarrow> Inl e
         | None \<Rightarrow>
             if (RandomLCG_m - 1) * RandomLCG_a + RandomLCG_c < 2 ^ 53
             then Inr \<lparr>seed_priv = seed2\<rparr>
             else Inl AssertionFailed)"

definition getModulus :: "RandomLCG_state \<Rightarrow> jsnum" where
  "getModulus st = Num RandomLCG_m"

definition getSeed :: "RandomLCG_state \<Rightarrow> jsnum" where
  "getSeed st = seed_priv st"

text \<open>\<open>nextInt_\<close> stores the new seed before it checks it, so a throw of \<open>checkSeed\<close> leaves
  the new seed in the object. The branches on \<open>DEBUG_RANDOM\<close> and \<open>DEBUG_RANDOM_DEEP\<close>, both
  constant \<open>false\<close>, only log and are left out throughout.\<close>

definition nextInt_priv :: "RandomLCG_state \<Rightarrow> (error + jsnum) \<times> RandomLCG_state" where
  "nextInt_priv st =
     (let r = js_add (js_mul (seed_priv st) (Num RandomLCG_a)) (Num RandomLCG_c);
          m = Num RandomLCG_m;
          st' = st\<lparr>seed_priv := js_sub r (js_mul (js_floor (js_div r m)) m)\<rparr>
      in case checkSeed (seed_priv st') of
           Some e \<Rightarrow> (Inl e, st')
         | None \<Rightarrow> (Inr (seed_priv st'), st'))"

definition nextInt :: "RandomLCG_state \<Rightarrow> (error + jsnum) \<times> RandomLCG_state" where
  "nextInt st = (case nextInt_priv st of (Inl e, st') \<Rightarrow> (Inl e, st') | (Inr x, st') \<Rightarrow> (Inr x, st'))"

definition nextFloat :: "RandomLCG_state \<Rightarrow> (error + jsnum) \<times> RandomLCG_state" where
  "nextFloat st =
     (case nextInt_priv st of
        (Inl e, st') \<Rightarrow> (Inl e, st')
      | (Inr x, st') \<Rightarrow> (Inr (js_div x (Num (RandomLCG_m - 1))), st'))"

definition nextRange_priv :: "RandomLCG_state \<Rightarrow> jsnum \<Rightarrow> (error + jsnum) \<times> RandomLCG_state" where
  "nextRange_priv st n =
     (if js_le n (Num 0) then (Inl NotPositive, st)
      else case nextInt_priv st of
             (Inl e, st') \<Rightarrow> (Inl e, st')
           | (Inr x, st') \<Rightarrow>
               (let randomUnder1 = js_div x (Num RandomLCG_m)
                in (Inr (js_floor (js_mul randomUnder1 n)), st')))"

definition nextRange :: "RandomLCG_state \<Rightarrow> jsnum \<Rightarrow> (error + jsnum) \<times> RandomLCG_state" where
  "nextRange st n =
     (case nextRange_priv st n of (Inl e, st') \<Rightarrow> (Inl e, st') | (Inr x, st') \<Rightarrow> (Inr x, st'))"

definition setSeed :: "RandomLCG_state \<Rightarrow> jsnum \<Rightarrow> (error + unit) \<times> RandomLCG_state" where
  "setSeed st seed =
     (case checkSeed seed of
        Some e \<Rightarrow> (Inl e, st)
      | None \<Rightarrow> (Inr (), st\<lparr>seed_priv := seed\<rparr>))"

subsection \<open>randomInts\<close>

text \<open>An array holds integers; \<open>None\<close> is \<open>undefined\<close>, the value of a hole and of a read
  outside the array. A write past the end extends the array, leaving holes. The test
  \<open>x < 0\<close> is false for \<open>undefined\<close>.\<close>

type_synonym jsarray = "int option list"

definition js_get :: "jsarray \<Rightarrow> nat \<Rightarrow> int option" where
  "js_get xs i = (if i < length xs then xs ! i else None)"

definition js_put :: "jsarray \<Rightarrow> nat \<Rightarrow> int option \<Rightarrow> jsarray" where
  "js_put xs i v =
     (if i < length xs then xs[i := v] else xs @ replicate (i - length xs) None @ [v])"

fun lt0 :: "int option \<Rightarrow> bool" where
  "lt0 None = False"
| "lt0 (Some v) = (v < 0)"

text \<open>The first loop, from index \<open>i\<close> on: \<open>set[i] = -1; src[i] = i\<close>. The array the source
  calls \<open>set\<close> is \<open>set_arr\<close> here.\<close>

function fill :: "nat \<Rightarrow> nat \<Rightarrow> jsarray \<Rightarrow> jsarray \<Rightarrow> jsarray \<times> jsarray" where
  "fill n i set_arr src =
     (if i < n then fill n (i + 1) (js_put set_arr i (Some (- 1))) (js_put src i (Some (int i)))
      else (set_arr, src))"
  by pat_completeness auto
termination
  by (relation "measure (\<lambda>(n, i, set_arr, src). n - i)") auto

text \<open>The inner loop of the \<open>do\<close> body, from index \<open>j\<close> on: it skips the negative entries of
  \<open>src\<close>, counts the others in \<open>srcCount\<close>, and at the one whose count equals \<open>k\<close> moves it
  to \<open>set[setCount]\<close> and leaves the loop. It returns both arrays and \<open>setCount\<close>.\<close>

function pick ::
  "nat \<Rightarrow> jsnum \<Rightarrow> nat \<Rightarrow> nat \<Rightarrow> jsarray \<Rightarrow> jsarray \<Rightarrow> nat \<Rightarrow> jsarray \<times> jsarray \<times> nat" where
  "pick n k j srcCount set_arr src setCount =
     (if j < n then
        (if lt0 (js_get src j) then pick n k (j + 1) srcCount set_arr src setCount
         else if js_eq (Num (real srcCount)) k
           then (js_put set_arr setCount (js_get src j), js_put src j (Some (- 1)), setCount + 1)
           else pick n k (j + 1) (srcCount + 1) set_arr src setCount)
      else (set_arr, src, setCount))"
  by pat_completeness auto
termination
  by (relation "measure (\<lambda>(n, k, j, srcCount, set_arr, src, setCount). n - j)") auto

declare fill.simps [simp del] pick.simps [simp del]

lemma nextRange_priv_Inr:
  "nextRange_priv st (Num (real_of_int m)) = (Inr k, st') \<Longrightarrow> 0 < m"
  by (auto simp: nextRange_priv_def js_le_def split: if_splits)

text \<open>The \<open>do ... while (set[n-1] < 0)\<close> loop: the body runs before the test. \<open>m\<close> is the
  argument of the next \<open>nextRange_(m--)\<close>. For \<open>n = 0\<close> the test reads \<open>set[-1]\<close>, which is
  \<open>undefined\<close>. The loop ends: each round either throws or lowers \<open>m\<close>, and \<open>nextRange_\<close>
  throws when \<open>m\<close> is not positive.\<close>

function randomInts_loop ::
  "nat \<Rightarrow> int \<Rightarrow> nat \<Rightarrow> jsarray \<Rightarrow> jsarray \<Rightarrow> RandomLCG_state
     \<Rightarrow> (error + jsarray) \<times> RandomLCG_state" where
  "randomInts_loop n m setCount set_arr src st =
     (case nextRange_priv st (Num (real_of_int m)) of
        (Inl e, st') \<Rightarrow> (Inl e, st')
      | (Inr k, st') \<Rightarrow>
          (case pick n k 0 0 set_arr src setCount of
             (set_arr', src', setCount') \<Rightarrow>
               if lt0 (if n = 0 then None else js_get set_arr' (n - 1))
               then randomInts_loop n (m - 1) setCount' set_arr' src' st'
               else (Inr set_arr', st')))"
  by pat_completeness auto
termination
  apply (relation "measure (\<lambda>(n, m, setCount, set_arr, src, st). nat m)")
   apply simp
  apply simp
  apply (metis nextRange_priv_Inr)
  done

declare randomInts_loop.simps [simp del]

text \<open>\<open>new Array(n)\<close> throws a \<open>RangeError\<close> for a length of \<open>2^32\<close> or more, and makes an
  array of \<open>n\<close> holes otherwise.\<close>

definition randomInts :: "RandomLCG_state \<Rightarrow> nat \<Rightarrow> (error + jsarray) \<times> RandomLCG_state" where
  "randomInts st n =
     (if 4294967296 \<le> n then (Inl RangeError, st)
      else case fill n 0 (replicate n None) (replicate n None) of
             (set_arr, src) \<Rightarrow> randomInts_loop n (int n) 0 set_arr src st)"

text \<open>The invariant of the \<open>do\<close> loop, for the proofs: \<open>placed\<close> lists the numbers moved so
  far, in order. They are distinct and below \<open>n\<close>, \<open>set\<close> holds them followed by \<open>-1\<close>s, and
  \<open>src\<close> holds \<open>-1\<close> at each of them and \<open>j\<close> at every other index \<open>j\<close>.\<close>

definition placed_inv :: "nat \<Rightarrow> nat list \<Rightarrow> jsarray \<Rightarrow> jsarray \<Rightarrow> bool" where
  "placed_inv n placed set_arr src \<longleftrightarrow>
     distinct placed \<and> set placed \<subseteq> {0..<n} \<and> length src = n
     \<and> set_arr = map (\<lambda>j. Some (int j)) placed @ replicate (n - length placed) (Some (- 1))
     \<and> (\<forall>j<n. src ! j = (if j \<in> set placed then Some (- 1) else Some (int j)))"

subsection \<open>A caller's sequence of calls\<close>

text \<open>The public methods as one transition, and a finite sequence of calls run from a
  state: the outcome of every call in order, and the last state. A call that throws leaves
  the object as it was at the throw, and the sequence goes on.\<close>

datatype call =
    GetModulus
  | GetSeed
  | NextInt
  | NextFloat
  | NextRange jsnum
  | RandomInts nat
  | SetSeed jsnum

datatype outcome = OutNumber jsnum | OutArray jsarray | OutNothing

definition returning ::
  "('a \<Rightarrow> outcome) \<Rightarrow> (error + 'a) \<times> RandomLCG_state \<Rightarrow> (error + outcome) \<times> RandomLCG_state" where
  "returning f r = (case r of (Inl e, st) \<Rightarrow> (Inl e, st) | (Inr x, st) \<Rightarrow> (Inr (f x), st))"

fun step :: "RandomLCG_state \<Rightarrow> call \<Rightarrow> (error + outcome) \<times> RandomLCG_state" where
  "step st GetModulus = (Inr (OutNumber (getModulus st)), st)"
| "step st GetSeed = (Inr (OutNumber (getSeed st)), st)"
| "step st NextInt = returning OutNumber (nextInt st)"
| "step st NextFloat = returning OutNumber (nextFloat st)"
| "step st (NextRange n) = returning OutNumber (nextRange st n)"
| "step st (RandomInts n) = returning OutArray (randomInts st n)"
| "step st (SetSeed x) = returning (\<lambda>u. OutNothing) (setSeed st x)"

fun run :: "RandomLCG_state \<Rightarrow> call list \<Rightarrow> (error + outcome) list \<times> RandomLCG_state" where
  "run st [] = ([], st)"
| "run st (c # cs) =
     (case step st c of (r, st') \<Rightarrow> (case run st' cs of (rs, st'') \<Rightarrow> (r # rs, st'')))"

text \<open>\<open>nextInt()\<close> called \<open>n\<close> times in a row, stopping at a throw.\<close>

fun nextInt_times :: "nat \<Rightarrow> RandomLCG_state \<Rightarrow> (error + unit) \<times> RandomLCG_state" where
  "nextInt_times 0 st = (Inr (), st)"
| "nextInt_times (Suc n) st =
     (case nextInt st of (Inl e, st') \<Rightarrow> (Inl e, st') | (Inr x, st') \<Rightarrow> nextInt_times n st')"

subsection \<open>The seed invariant and the recurrence\<close>

text \<open>A seed is valid when it is an integer from \<open>0\<close> to \<open>m - 1\<close>.\<close>

definition valid_seed :: "jsnum \<Rightarrow> bool" where
  "valid_seed x =
     (case x of Num r \<Rightarrow> r \<in> \<int> \<and> 0 \<le> r \<and> r < 2 ^ 32 | NaN \<Rightarrow> False | PosInf \<Rightarrow> False
      | NegInf \<Rightarrow> False)"

text \<open>The recurrence \<open>X' = (a X + c) mod m\<close> of the class comment, on the integers.\<close>

definition lcg :: "int \<Rightarrow> int" where
  "lcg s = (s * 1664525 + 1013904223) mod 4294967296"

text \<open>For the period of the recurrence: the affine map \<open>x \<mapsto> (x a + c) mod m\<close> for any
  constants, of which \<open>lcg\<close> is one, and the sum \<open>1 + a + ... + a^(n-1)\<close>.\<close>

definition affine :: "int \<Rightarrow> int \<Rightarrow> int \<Rightarrow> int \<Rightarrow> int" where
  "affine a c m x = (x * a + c) mod m"

fun geo :: "int \<Rightarrow> nat \<Rightarrow> int" where
  "geo a 0 = 0"
| "geo a (Suc n) = 1 + a * geo a n"

section \<open>CardioidPath\<close>

text \<open>The path's numbers are finite here: the radius and the parameter \<open>t\<close> are reals, and
  \<open>Math.sin\<close> and \<open>Math.cos\<close> are the real functions. The constructor passes \<open>name\<close>,
  \<open>localName\<close>, \<open>start\<close>, \<open>finish\<close> and \<open>closedLoop\<close> on to the constructor of
  \<open>AbstractPath\<close>; the record holds these five arguments as they are passed, and the
  field \<open>a_\<close> (\<open>a_priv\<close>). An omitted argument is \<open>None\<close>. \<open>goog.isNumber\<close> holds for every
  number, \<open>goog.isDef\<close> for everything but \<open>undefined\<close>, and \<open>x || d\<close> is \<open>d\<close> for an omitted
  or empty string. \<open>locale\<close> is \<open>goog.LOCALE\<close>.\<close>

record CardioidPath_obj =
  super_name :: string
  super_localName :: string
  super_start :: jsnum
  super_finish :: jsnum
  super_closedLoop :: bool
  a_priv :: real

definition CardioidPath_en_NAME :: string where
  "CardioidPath_en_NAME = ''Cardioid''"

definition CardioidPath_de_NAME :: string where
  "CardioidPath_de_NAME = ''Cardioid''"

definition CardioidPath_i18n_NAME :: "string \<Rightarrow> string" where
  "CardioidPath_i18n_NAME locale = (if locale = ''de'' then CardioidPath_de_NAME else CardioidPath_en_NAME)"

definition js_or :: "string option \<Rightarrow> string \<Rightarrow> string" where
  "js_or x d = (case x of None \<Rightarrow> d | Some s \<Rightarrow> (if s = [] then d else s))"

definition CardioidPath ::
  "string \<Rightarrow> real \<Rightarrow> jsnum option \<Rightarrow> jsnum option \<Rightarrow> bool option \<Rightarrow> string option \<Rightarrow> string option
     \<Rightarrow> CardioidPath_obj" where
  "CardioidPath locale radius start finish closedLoop name localName =
     (let start1 = (case start of None \<Rightarrow> Num (- pi) | Some x \<Rightarrow> x);
          finish1 = (case finish of None \<Rightarrow> Num pi | Some x \<Rightarrow> x);
          closedLoop1 = (case closedLoop of None \<Rightarrow> False | Some b \<Rightarrow> b);
          name1 = js_or name CardioidPath_en_NAME;
          localName1 = js_or localName (CardioidPath_i18n_NAME locale)
      in \<lparr>super_name = name1, super_localName = localName1, super_start = start1,
          super_finish = finish1, super_closedLoop = closedLoop1, a_priv = radius\<rparr>)"

definition x_func :: "CardioidPath_obj \<Rightarrow> real \<Rightarrow> real" where
  "x_func this t = (let c = cos t in a_priv this * sin t * (1 + c))"

definition y_func :: "CardioidPath_obj \<Rightarrow> real \<Rightarrow> real" where
  "y_func this t = (let c = cos t in - a_priv this * c * (1 + c))"

section \<open>Properties of RandomLCG\<close>

subsection \<open>Seeds that are integers\<close>

lemma valid_seed_iff:
  "valid_seed x \<longleftrightarrow> (\<exists>i::int. 0 \<le> i \<and> i < 4294967296 \<and> x = Num (real_of_int i))"
proof
  assume "valid_seed x"
  then obtain r where r: "x = Num r" "r \<in> \<int>" "0 \<le> r" "r < 2 ^ 32"
    by (auto simp: valid_seed_def split: jsnum.splits)
  from r(2) obtain i :: int where "r = real_of_int i" by (auto elim: Ints_cases)
  with r show "\<exists>i::int. 0 \<le> i \<and> i < 4294967296 \<and> x = Num (real_of_int i)" by auto
next
  assume "\<exists>i::int. 0 \<le> i \<and> i < 4294967296 \<and> x = Num (real_of_int i)"
  then show "valid_seed x" by (auto simp: valid_seed_def)
qed

lemma floor_formula:
  fixes r :: int
  shows "real_of_int r - real_of_int \<lfloor>real_of_int r / 4294967296\<rfloor> * 4294967296
           = real_of_int (r mod 4294967296)"
proof -
  have "\<lfloor>real_of_int r / 4294967296\<rfloor> = r div 4294967296"
    using floor_divide_of_int_eq [of r 4294967296, where ?'a = real] by simp
  moreover have "r mod 4294967296 = r - (r div 4294967296) * 4294967296"
    by (simp add: minus_div_mult_eq_mod)
  ultimately show ?thesis by simp
qed

lemma checkSeed_int:
  "checkSeed (Num (real_of_int i)) =
     (if i < 0 then Some (SeedNegative (Num (real_of_int i)))
      else if 4294967296 \<le> i then Some (SeedTooLarge (Num (real_of_int i)))
      else None)"
  by (simp add: checkSeed_def js_ge_def js_le_def js_ne_def RandomLCG_m_def)

lemma lcg_range: "0 \<le> lcg s" "lcg s < 4294967296"
  by (simp_all add: lcg_def)

lemma lcg_real:
  "real_of_int s * 1664525 + 1013904223
     - real_of_int \<lfloor>(real_of_int s * 1664525 + 1013904223) / 4294967296\<rfloor> * 4294967296
   = real_of_int (lcg s)"
proof -
  have "real_of_int s * 1664525 + 1013904223 = real_of_int (s * 1664525 + 1013904223)"
    by simp
  then show ?thesis
    unfolding lcg_def using floor_formula [of "s * 1664525 + 1013904223"] by simp
qed

lemma nextInt_priv_int:
  assumes "seed_priv st = Num (real_of_int s)"
  shows "nextInt_priv st
           = (Inr (Num (real_of_int (lcg s))), st\<lparr>seed_priv := Num (real_of_int (lcg s))\<rparr>)"
  using assms lcg_real [of s] lcg_range [of s]
  by (simp add: nextInt_priv_def Let_def js_sub_def RandomLCG_m_def RandomLCG_a_def
      RandomLCG_c_def checkSeed_int del: of_int_add of_int_mult)

lemma nextInt_int:
  assumes "seed_priv st = Num (real_of_int s)"
  shows "nextInt st
           = (Inr (Num (real_of_int (lcg s))), st\<lparr>seed_priv := Num (real_of_int (lcg s))\<rparr>)"
  by (simp add: nextInt_def nextInt_priv_int [OF assms])

lemma RandomLCG_zero: "RandomLCG now (Some (Num 0)) = Inr \<lparr>seed_priv = Num 0\<rparr>"
  by (simp add: RandomLCG_def Let_def trunc_def checkSeed_def js_ge_def js_le_def js_ne_def RandomLCG_m_def RandomLCG_a_def RandomLCG_c_def)

subsection \<open>nextInt\<close>

text \<open>
  Claim C1. In a state whose seed is an integer \<open>s\<close> with \<open>0 \<le> s < m\<close>, \<open>m = 2^32\<close>,
  \<open>a = 1664525\<close>, \<open>c = 1013904223\<close>, a call of \<open>nextInt()\<close> stores
  \<open>r - floor(r / m) * m\<close> for \<open>r = s * a + c\<close> as the new seed, this number is
  \<open>(s * a + c) mod m\<close>, the call returns it, and it lies in \<open>[0, m)\<close>. Constructed with
  seed \<open>0\<close>, the first \<open>nextInt()\<close> returns \<open>1013904223\<close> and the second
  \<open>(1013904223 * 1664525 + 1013904223) mod 2^32\<close>.
\<close>

theorem nextInt_recurrence:
  assumes "seed_priv st = Num (real_of_int s)" and "0 \<le> s" and "s < 4294967296"
  shows "nextInt st = (Inr (Num (real_of_int (lcg s))), st\<lparr>seed_priv := Num (real_of_int (lcg s))\<rparr>)
       \<and> (let r = real_of_int s * RandomLCG_a + RandomLCG_c
          in r - real_of_int \<lfloor>r / RandomLCG_m\<rfloor> * RandomLCG_m = real_of_int (lcg s))
       \<and> lcg s = (s * 1664525 + 1013904223) mod 2 ^ 32
       \<and> 0 \<le> lcg s \<and> lcg s < 2 ^ 32
       \<and> RandomLCG now (Some (Num 0)) = Inr \<lparr>seed_priv = Num 0\<rparr>
       \<and> nextInt \<lparr>seed_priv = Num 0\<rparr> = (Inr (Num 1013904223), \<lparr>seed_priv = Num 1013904223\<rparr>)
       \<and> nextInt \<lparr>seed_priv = Num 1013904223\<rparr>
           = (Inr (Num (real_of_int ((1013904223 * 1664525 + 1013904223) mod 2 ^ 32))),
              \<lparr>seed_priv = Num (real_of_int ((1013904223 * 1664525 + 1013904223) mod 2 ^ 32))\<rparr>)"
proof -
  have first: "nextInt \<lparr>seed_priv = Num 0\<rparr> = (Inr (Num 1013904223), \<lparr>seed_priv = Num 1013904223\<rparr>)"
    using nextInt_int [of "\<lparr>seed_priv = Num 0\<rparr>" 0] by (simp add: lcg_def)
  have second: "nextInt \<lparr>seed_priv = Num 1013904223\<rparr>
           = (Inr (Num (real_of_int ((1013904223 * 1664525 + 1013904223) mod 2 ^ 32))),
              \<lparr>seed_priv = Num (real_of_int ((1013904223 * 1664525 + 1013904223) mod 2 ^ 32))\<rparr>)"
    using nextInt_int [of "\<lparr>seed_priv = Num 1013904223\<rparr>" 1013904223] by (simp add: lcg_def)
  have formula: "(let r = real_of_int s * RandomLCG_a + RandomLCG_c
          in r - real_of_int \<lfloor>r / RandomLCG_m\<rfloor> * RandomLCG_m = real_of_int (lcg s))"
    using lcg_real [of s] by (simp add: Let_def RandomLCG_m_def RandomLCG_a_def RandomLCG_c_def)
  have "lcg s = (s * 1664525 + 1013904223) mod 2 ^ 32" by (simp add: lcg_def)
  moreover have "0 \<le> lcg s" "lcg s < 2 ^ 32" using lcg_range [of s] by simp_all
  ultimately show ?thesis
    using nextInt_int [OF assms(1)] first second formula RandomLCG_zero by blast
qed

theorem nextInt_recurrence_witness:
  "nextInt \<lparr>seed_priv = Num 5\<rparr> = (Inr (Num 1022226848), \<lparr>seed_priv = Num 1022226848\<rparr>)
   \<and> nextInt \<lparr>seed_priv = Num 1013904223\<rparr> = (Inr (Num 1196435762), \<lparr>seed_priv = Num 1196435762\<rparr>)"
  using nextInt_recurrence [of "\<lparr>seed_priv = Num 5\<rparr>" 5] by (simp add: lcg_def)

subsection \<open>setSeed\<close>

lemma checkSeed_Num:
  "checkSeed (Num r) = None \<longleftrightarrow> r \<in> \<int> \<and> 0 \<le> r \<and> r < 4294967296"
proof -
  have "real_of_int \<lfloor>r\<rfloor> = r \<longleftrightarrow> r \<in> \<int>"
    by (metis Ints_of_int floor_of_int Ints_cases)
  then show ?thesis
    by (auto simp: checkSeed_def js_ge_def js_le_def js_ne_def RandomLCG_m_def)
qed

lemma checkSeed_special:
  "checkSeed NaN \<noteq> None" "checkSeed PosInf \<noteq> None" "checkSeed NegInf \<noteq> None"
  by (simp_all add: checkSeed_def js_ge_def js_le_def js_ne_def)

lemma checkSeed_valid: "checkSeed x = None \<longleftrightarrow> valid_seed x"
  by (cases x) (simp_all add: checkSeed_Num checkSeed_special valid_seed_def)

lemma setSeed_cases:
  "setSeed st x = (if valid_seed x then (Inr (), st\<lparr>seed_priv := x\<rparr>) else (Inl (the (checkSeed x)), st))"
  using checkSeed_valid [of x] by (auto simp: setSeed_def split: option.splits)

text \<open>
  Claim C5. \<open>setSeed(seed)\<close> throws exactly when the argument is negative, at least \<open>m\<close>,
  or not an integer (the three special values are each one of these); \<open>setSeed(-1)\<close>,
  \<open>setSeed(4294967296)\<close> and \<open>setSeed(3.5)\<close> throw. A throw leaves the seed as it was.
  A call that returns has stored the argument itself, and \<open>getSeed()\<close> then returns it.
\<close>

theorem setSeed_strict:
  "((\<exists>e. fst (setSeed st (Num r)) = Inl e) \<longleftrightarrow> r < 0 \<or> 2 ^ 32 \<le> r \<or> r \<notin> \<int>)
   \<and> (\<exists>e. fst (setSeed st NaN) = Inl e)
   \<and> (\<exists>e. fst (setSeed st PosInf) = Inl e)
   \<and> (\<exists>e. fst (setSeed st NegInf) = Inl e)
   \<and> (\<forall>e. fst (setSeed st x) = Inl e \<longrightarrow> snd (setSeed st x) = st)
   \<and> (fst (setSeed st x) = Inr () \<longrightarrow>
        snd (setSeed st x) = st\<lparr>seed_priv := x\<rparr> \<and> getSeed (snd (setSeed st x)) = x)
   \<and> (\<exists>e. setSeed st (Num (- 1)) = (Inl e, st))
   \<and> (\<exists>e. setSeed st (Num 4294967296) = (Inl e, st))
   \<and> (\<exists>e. setSeed st (Num 3.5) = (Inl e, st))"
proof -
  have a: "(\<exists>e. fst (setSeed st (Num r)) = Inl e) \<longleftrightarrow> r < 0 \<or> 2 ^ 32 \<le> r \<or> r \<notin> \<int>"
    by (auto simp: setSeed_cases valid_seed_def)
  have b: "\<exists>e. fst (setSeed st NaN) = Inl e" "\<exists>e. fst (setSeed st PosInf) = Inl e"
    "\<exists>e. fst (setSeed st NegInf) = Inl e"
    by (simp_all add: setSeed_cases valid_seed_def)
  have c: "\<forall>e. fst (setSeed st x) = Inl e \<longrightarrow> snd (setSeed st x) = st"
    by (simp add: setSeed_cases)
  have d: "fst (setSeed st x) = Inr () \<longrightarrow>
        snd (setSeed st x) = st\<lparr>seed_priv := x\<rparr> \<and> getSeed (snd (setSeed st x)) = x"
    by (simp add: setSeed_cases getSeed_def)
  have "(3.5::real) \<notin> \<int>"
  proof
    assume "(3.5::real) \<in> \<int>"
    then obtain i :: int where "(3.5::real) = real_of_int i" by (auto elim: Ints_cases)
    then have "real_of_int (2 * i) = 7" by simp
    then have "2 * i = 7" by linarith
    then show False by presburger
  qed
  then have e: "\<exists>e. setSeed st (Num (- 1)) = (Inl e, st)"
    "\<exists>e. setSeed st (Num 4294967296) = (Inl e, st)"
    "\<exists>e. setSeed st (Num 3.5) = (Inl e, st)"
    by (simp_all add: setSeed_cases valid_seed_def)
  from a b c d e show ?thesis by blast
qed

theorem setSeed_strict_witness:
  "fst (setSeed \<lparr>seed_priv = Num 7\<rparr> (Num 42)) = Inr ()
   \<and> snd (setSeed \<lparr>seed_priv = Num 7\<rparr> (Num 42)) = \<lparr>seed_priv = Num 42\<rparr>
   \<and> getSeed (snd (setSeed \<lparr>seed_priv = Num 7\<rparr> (Num 42))) = Num 42
   \<and> fst (setSeed \<lparr>seed_priv = Num 7\<rparr> (Num (- 1))) = Inl (SeedNegative (Num (- 1)))
   \<and> snd (setSeed \<lparr>seed_priv = Num 7\<rparr> (Num (- 1))) = \<lparr>seed_priv = Num 7\<rparr>"
proof -
  have ok: "fst (setSeed \<lparr>seed_priv = Num 7\<rparr> (Num 42)) = Inr ()"
    by (simp add: setSeed_def checkSeed_def js_ge_def js_le_def js_ne_def RandomLCG_m_def)
  have bad: "fst (setSeed \<lparr>seed_priv = Num 7\<rparr> (Num (- 1))) = Inl (SeedNegative (Num (- 1)))"
    by (simp add: setSeed_def checkSeed_def)
  from ok bad setSeed_strict [of "\<lparr>seed_priv = Num 7\<rparr>" 0 "Num 42"]
    setSeed_strict [of "\<lparr>seed_priv = Num 7\<rparr>" 0 "Num (- 1)"]
  show ?thesis by (simp add: getSeed_def)
qed

subsection \<open>The constructor\<close>

lemma js_rem_int:
  assumes "0 \<le> k"
  shows "js_rem (Num (real_of_int k)) (Num RandomLCG_m) = Num (real_of_int (k mod 4294967296))"
proof -
  have "trunc (real_of_int k / 4294967296) = k div 4294967296"
    using assms floor_divide_of_int_eq [of k 4294967296, where ?'a = real]
    by (simp add: trunc_def)
  moreover have "k mod 4294967296 = k - 4294967296 * (k div 4294967296)"
    by (simp add: minus_mult_div_eq_mod)
  ultimately show ?thesis by (simp add: RandomLCG_m_def)
qed

lemma checkSeed_mod: "checkSeed (Num (real_of_int (k mod 4294967296))) = None"
proof -
  have "0 \<le> k mod 4294967296" by (rule pos_mod_sign) simp
  moreover have "k mod 4294967296 < 4294967296" by (rule pos_mod_bound) simp
  ultimately have "\<not> k mod 4294967296 < 0" "\<not> 4294967296 \<le> k mod 4294967296"
    by linarith+
  then show ?thesis unfolding checkSeed_int by (simp only: if_False)
qed

lemma RandomLCG_Num:
  "RandomLCG now (Some (Num r)) = Inr \<lparr>seed_priv = Num (real_of_int (\<lfloor>\<bar>r\<bar>\<rfloor> mod 4294967296))\<rparr>"
proof -
  have "0 \<le> \<lfloor>\<bar>r\<bar>\<rfloor>" by simp
  then have "js_rem (js_floor (js_abs (Num r))) (Num RandomLCG_m)
               = Num (real_of_int (\<lfloor>\<bar>r\<bar>\<rfloor> mod 4294967296))"
    using js_rem_int [of "\<lfloor>\<bar>r\<bar>\<rfloor>"] by simp
  moreover have "checkSeed (Num (real_of_int (\<lfloor>\<bar>r\<bar>\<rfloor> mod 4294967296))) = None"
    by (rule checkSeed_mod)
  ultimately show ?thesis
    by (simp add: RandomLCG_def Let_def RandomLCG_m_def RandomLCG_a_def RandomLCG_c_def)
qed

text \<open>
  Claim C7 speaks of every numeric seed argument. \<open>NaN\<close> is a number; the constructor
  keeps it through \<open>Math.abs\<close>, \<open>Math.floor\<close> and \<open>%\<close>, and \<open>checkSeed\<close> then throws, since
  \<open>NaN != NaN\<close>.
\<close>

theorem RandomLCG_NaN_counterexample:
  "RandomLCG (Num 0) (Some NaN) = Inl (SeedNotInteger NaN)"
  by (simp add: RandomLCG_def Let_def checkSeed_def js_ge_def js_le_def js_ne_def)

text \<open>
  Claim C7, amended. For every finite seed argument \<open>s\<close> the constructor returns an
  object whose seed is \<open>floor(|s|) mod m\<close>, a number in \<open>[0, m)\<close>, and does not throw;
  constructed with seed \<open>5\<close>, \<open>getSeed()\<close> returns \<open>5\<close>. For the two infinities the
  remainder is \<open>NaN\<close> and the constructor throws, as it does for \<open>NaN\<close>.
\<close>

theorem RandomLCG_normalizes:
  "RandomLCG now (Some (Num r)) = Inr \<lparr>seed_priv = Num (real_of_int (\<lfloor>\<bar>r\<bar>\<rfloor> mod 2 ^ 32))\<rparr>
   \<and> 0 \<le> \<lfloor>\<bar>r\<bar>\<rfloor> mod 2 ^ 32 \<and> \<lfloor>\<bar>r\<bar>\<rfloor> mod 2 ^ 32 < 2 ^ 32
   \<and> RandomLCG now (Some (Num 5)) = Inr \<lparr>seed_priv = Num 5\<rparr>
   \<and> getSeed \<lparr>seed_priv = Num 5\<rparr> = Num 5
   \<and> RandomLCG now (Some PosInf) = Inl (SeedNotInteger NaN)
   \<and> RandomLCG now (Some NegInf) = Inl (SeedNotInteger NaN)"
proof -
  have "RandomLCG now (Some (Num 5)) = Inr \<lparr>seed_priv = Num 5\<rparr>"
    using RandomLCG_Num [of now 5] by simp
  moreover have "RandomLCG now (Some PosInf) = Inl (SeedNotInteger NaN)"
    "RandomLCG now (Some NegInf) = Inl (SeedNotInteger NaN)"
    by (simp_all add: RandomLCG_def Let_def checkSeed_def js_ge_def js_le_def js_ne_def)
  ultimately show ?thesis using RandomLCG_Num [of now r] by (simp add: getSeed_def)
qed

subsection \<open>nextFloat\<close>

lemma nextFloat_int:
  assumes "seed_priv st = Num (real_of_int s)"
  shows "nextFloat st
           = (Inr (Num (real_of_int (lcg s) / 4294967295)), st\<lparr>seed_priv := Num (real_of_int (lcg s))\<rparr>)"
  by (simp add: nextFloat_def nextInt_priv_int [OF assms] RandomLCG_m_def)



subsection \<open>nextRange\<close>

lemma js_le_Num [simp]: "js_le (Num x) (Num y) \<longleftrightarrow> x \<le> y"
  by (auto simp: js_le_def)

lemma js_le_special [simp]:
  "js_le NegInf (Num y)" "\<not> js_le NaN y'" "\<not> js_le PosInf (Num y)"
  by (simp_all add: js_le_def)

lemma nextRange_priv_nonpos:
  "js_le n (Num 0) \<Longrightarrow> nextRange_priv st n = (Inl NotPositive, st)"
  by (simp add: nextRange_priv_def)

lemma nextRange_priv_pos:
  assumes "seed_priv st = Num (real_of_int s)" and "\<not> js_le n (Num 0)"
  shows "nextRange_priv st n
           = (Inr (js_floor (js_mul (Num (real_of_int (lcg s) / 4294967296)) n)),
              st\<lparr>seed_priv := Num (real_of_int (lcg s))\<rparr>)"
  using assms(2) by (simp add: nextRange_priv_def nextInt_priv_int [OF assms(1)] RandomLCG_m_def)

lemma nextRange_eq: "nextRange st n = nextRange_priv st n"
  by (simp add: nextRange_def split: prod.splits sum.splits)

lemma floor_scaled:
  assumes "0 \<le> x" and "x < 4294967296" and "0 < k"
  shows "0 \<le> \<lfloor>real_of_int x / 4294967296 * real_of_int k\<rfloor>"
    and "\<lfloor>real_of_int x / 4294967296 * real_of_int k\<rfloor> < k"
proof -
  have "0 \<le> real_of_int x / 4294967296" using assms(1) by simp
  then have "0 \<le> real_of_int x / 4294967296 * real_of_int k"
    using assms(3) by simp
  then show "0 \<le> \<lfloor>real_of_int x / 4294967296 * real_of_int k\<rfloor>" by simp
  have "real_of_int x / 4294967296 < 1" using assms(2) by simp
  then have "real_of_int x / 4294967296 * real_of_int k < 1 * real_of_int k"
    using assms(3) by (intro mult_strict_right_mono) simp_all
  then show "\<lfloor>real_of_int x / 4294967296 * real_of_int k\<rfloor> < k"
    by (simp add: floor_less_iff)
qed




subsection \<open>randomInts\<close>

lemma js_put_in_range: "i < length xs \<Longrightarrow> js_put xs i v = xs[i := v]"
  by (simp add: js_put_def)

lemma js_get_in_range: "i < length xs \<Longrightarrow> js_get xs i = xs ! i"
  by (simp add: js_get_def)

lemma fill_nth:
  assumes "length set_arr = n" and "length src = n"
  shows "\<exists>set_arr' src'. fill n i set_arr src = (set_arr', src')
           \<and> length set_arr' = n \<and> length src' = n
           \<and> (\<forall>j<n. set_arr' ! j = (if i \<le> j then Some (- 1) else set_arr ! j))
           \<and> (\<forall>j<n. src' ! j = (if i \<le> j then Some (int j) else src ! j))"
  using assms
proof (induction n i set_arr src rule: fill.induct)
  case (1 n i set_arr src)
  show ?case
  proof (cases "i < n")
    case True
    let ?s = "js_put set_arr i (Some (- 1))" and ?r = "js_put src i (Some (int i))"
    have put: "?s = set_arr[i := Some (- 1)]" "?r = src[i := Some (int i)]"
      using True "1.prems" by (simp_all add: js_put_in_range)
    then have len: "length ?s = n" "length ?r = n" using "1.prems" by simp_all
    from "1.IH" [OF True len] obtain set_arr' src' where
      r: "fill n (i + 1) ?s ?r = (set_arr', src')" "length set_arr' = n" "length src' = n"
        "\<forall>j<n. set_arr' ! j = (if i + 1 \<le> j then Some (- 1) else ?s ! j)"
        "\<forall>j<n. src' ! j = (if i + 1 \<le> j then Some (int j) else ?r ! j)"
      by blast
    have "fill n i set_arr src = (set_arr', src')"
      using True r(1) by (subst fill.simps) simp
    moreover have "\<forall>j<n. set_arr' ! j = (if i \<le> j then Some (- 1) else set_arr ! j)"
      using r(4) put(1) "1.prems"(1) by (auto simp: nth_list_update)
    moreover have "\<forall>j<n. src' ! j = (if i \<le> j then Some (int j) else src ! j)"
      using r(5) put(2) "1.prems"(2) by (auto simp: nth_list_update)
    ultimately show ?thesis using r(2,3) by blast
  next
    case False
    then have "fill n i set_arr src = (set_arr, src)" by (subst fill.simps) simp
    then show ?thesis using False "1.prems" by auto
  qed
qed

lemma fill_start:
  "fill n 0 (replicate n None) (replicate n None)
     = (replicate n (Some (- 1)), map (\<lambda>j. Some (int j)) [0..<n])"
proof -
  from fill_nth [of "replicate n None" n "replicate n None" 0]
  obtain set_arr' src' where
    r: "fill n 0 (replicate n None) (replicate n None) = (set_arr', src')"
      "length set_arr' = n" "length src' = n"
      "\<forall>j<n. set_arr' ! j = Some (- 1)" "\<forall>j<n. src' ! j = Some (int j)"
    by auto
  have "set_arr' = replicate n (Some (- 1))"
    using r(2,4) by (intro nth_equalityI) simp_all
  moreover have "src' = map (\<lambda>j. Some (int j)) [0..<n]"
    using r(3,5) by (intro nth_equalityI) simp_all
  ultimately show ?thesis using r(1) by simp
qed

lemma pick_finds:
  assumes "length src = n" and "sc \<le> kk"
    and "kk - sc < length (filter (\<lambda>i. \<not> lt0 (src ! i)) [j..<n])"
  shows "pick n (Num (real kk)) j sc set_arr src c
           = (js_put set_arr c (src ! (filter (\<lambda>i. \<not> lt0 (src ! i)) [j..<n] ! (kk - sc))),
              js_put src (filter (\<lambda>i. \<not> lt0 (src ! i)) [j..<n] ! (kk - sc)) (Some (- 1)),
              c + 1)"
  using assms
proof (induction n "Num (real kk)" j sc set_arr src c rule: pick.induct)
  case (1 n j sc set_arr src c)
  let ?P = "\<lambda>i. \<not> lt0 (src ! i)"
  show ?case
  proof (cases "j < n")
    case False
    then show ?thesis using "1.prems" by simp
  next
    case True
    then have upt: "[j..<n] = j # [j + 1..<n]" by (simp add: upt_conv_Cons)
    have get: "js_get src j = src ! j" using True "1.prems"(1) by (simp add: js_get_in_range)
    show ?thesis
    proof (cases "lt0 (src ! j)")
      case neg: True
      then have f: "filter ?P [j..<n] = filter ?P [j + 1..<n]" using upt by simp
      have "pick n (Num (real kk)) j sc set_arr src c
              = pick n (Num (real kk)) (j + 1) sc set_arr src c"
        using True neg get by (subst pick.simps) simp
      also have "\<dots> = (js_put set_arr c (src ! (filter ?P [j + 1..<n] ! (kk - sc))),
              js_put src (filter ?P [j + 1..<n] ! (kk - sc)) (Some (- 1)), c + 1)"
        using "1.hyps"(1) [OF True _ "1.prems"(1,2)] neg get "1.prems"(3) f by simp
      finally show ?thesis using f by simp
    next
      case pos: False
      then have f: "filter ?P [j..<n] = j # filter ?P [j + 1..<n]" using upt by simp
      show ?thesis
      proof (cases "sc = kk")
        case eq: True
        have "pick n (Num (real kk)) j sc set_arr src c
                = (js_put set_arr c (src ! j), js_put src j (Some (- 1)), c + 1)"
          using True pos get eq by (subst pick.simps) simp
        then show ?thesis using f eq by simp
      next
        case ne: False
        then have lt: "sc + 1 \<le> kk" using "1.prems"(2) by simp
        have idx: "kk - sc = Suc (kk - (sc + 1))" using lt by simp
        have len: "kk - (sc + 1) < length (filter ?P [j + 1..<n])"
          using "1.prems"(3) f idx by simp
        have "pick n (Num (real kk)) j sc set_arr src c
                = pick n (Num (real kk)) (j + 1) (sc + 1) set_arr src c"
          using True pos get ne by (subst pick.simps) simp
        also have "\<dots> = (js_put set_arr c (src ! (filter ?P [j + 1..<n] ! (kk - (sc + 1)))),
              js_put src (filter ?P [j + 1..<n] ! (kk - (sc + 1))) (Some (- 1)), c + 1)"
          using "1.hyps"(2) [OF True _ _ "1.prems"(1) lt len] pos get ne by simp
        finally show ?thesis using f idx by simp
      qed
    qed
  qed
qed

lemma free_filter:
  assumes "placed_inv n placed set_arr src"
  shows "filter (\<lambda>i. \<not> lt0 (src ! i)) [0..<n] = filter (\<lambda>i. i \<notin> set placed) [0..<n]"
  using assms by (intro filter_cong) (auto simp: placed_inv_def)

lemma free_count:
  assumes "distinct placed" and "set placed \<subseteq> {0..<n}"
  shows "length (filter (\<lambda>i. i \<notin> set placed) [0..<n]) = n - length placed"
proof -
  have "length (filter (\<lambda>i. i \<notin> set placed) [0..<n]) = card (set (filter (\<lambda>i. i \<notin> set placed) [0..<n]))"
    by (rule distinct_card [symmetric]) simp
  also have "set (filter (\<lambda>i. i \<notin> set placed) [0..<n]) = {0..<n} - set placed" by auto
  also have "card ({0..<n} - set placed) = card {0..<n} - card (set placed)"
    using assms(2) by (intro card_Diff_subset) auto
  also have "\<dots> = n - length placed" using assms(1) by (simp add: distinct_card)
  finally show ?thesis .
qed

lemma placed_inv_step:
  assumes inv: "placed_inv n placed set_arr src" and kk: "kk < n - length placed"
  defines "j0 \<equiv> filter (\<lambda>i. i \<notin> set placed) [0..<n] ! kk"
  shows "pick n (Num (real kk)) 0 0 set_arr src (length placed)
           = (set_arr[length placed := Some (int j0)], src[j0 := Some (- 1)], length placed + 1)"
    and "placed_inv n (placed @ [j0]) (set_arr[length placed := Some (int j0)]) (src[j0 := Some (- 1)])"
    and "j0 < n"
proof -
  let ?free = "filter (\<lambda>i. i \<notin> set placed) [0..<n]"
  have d: "distinct placed" and sub: "set placed \<subseteq> {0..<n}" and ls: "length src = n"
    and sa: "set_arr = map (\<lambda>j. Some (int j)) placed @ replicate (n - length placed) (Some (- 1))"
    and sr: "\<forall>j<n. src ! j = (if j \<in> set placed then Some (- 1) else Some (int j))"
    using inv by (simp_all add: placed_inv_def)
  have len: "length ?free = n - length placed" by (rule free_count [OF d sub])
  then have "j0 \<in> set ?free" unfolding j0_def using kk by (intro nth_mem) simp
  then have j0: "j0 < n" "j0 \<notin> set placed" by auto
  show "j0 < n" by fact
  have lsa: "length set_arr = n"
    using sa kk by simp
  have "pick n (Num (real kk)) 0 0 set_arr src (length placed)
          = (js_put set_arr (length placed) (src ! (filter (\<lambda>i. \<not> lt0 (src ! i)) [0..<n] ! (kk - 0))),
             js_put src (filter (\<lambda>i. \<not> lt0 (src ! i)) [0..<n] ! (kk - 0)) (Some (- 1)),
             length placed + 1)"
    using kk len by (intro pick_finds [OF ls]) (simp_all add: free_filter [OF inv])
  then show "pick n (Num (real kk)) 0 0 set_arr src (length placed)
           = (set_arr[length placed := Some (int j0)], src[j0 := Some (- 1)], length placed + 1)"
    using j0 sr ls lsa kk by (simp add: free_filter [OF inv] j0_def [symmetric] js_put_in_range)
  have "set_arr[length placed := Some (int j0)]
          = map (\<lambda>j. Some (int j)) (placed @ [j0]) @ replicate (n - length (placed @ [j0])) (Some (- 1))"
  proof -
    have "n - length placed = Suc (n - length (placed @ [j0]))" using kk by simp
    then have "replicate (n - length placed) (Some (- 1 :: int))
                 = Some (- 1) # replicate (n - length (placed @ [j0])) (Some (- 1))"
      by (simp only: replicate_Suc)
    then show ?thesis using sa by (simp add: list_update_append)
  qed
  moreover have "\<forall>j<n. src[j0 := Some (- 1)] ! j = (if j \<in> set (placed @ [j0]) then Some (- 1) else Some (int j))"
    using sr ls j0 by (auto simp: nth_list_update)
  ultimately show "placed_inv n (placed @ [j0]) (set_arr[length placed := Some (int j0)]) (src[j0 := Some (- 1)])"
    using d sub j0 ls by (simp add: placed_inv_def)
qed

lemma nextRange_priv_draw:
  assumes "seed_priv st = Num (real_of_int s)" and "0 < m"
  shows "\<exists>kk. nextRange_priv st (Num (real_of_int (int m)))
              = (Inr (Num (real kk)), st\<lparr>seed_priv := Num (real_of_int (lcg s))\<rparr>) \<and> kk < m"
proof -
  let ?kz = "\<lfloor>real_of_int (lcg s) / 4294967296 * real_of_int (int m)\<rfloor>"
  have m: "0 < int m" using assms(2) by simp
  have kz: "0 \<le> ?kz" "?kz < int m" using floor_scaled [OF lcg_range m, of s] by simp_all
  have "\<not> js_le (Num (real_of_int (int m))) (Num 0)" using assms(2) by simp
  then have "nextRange_priv st (Num (real_of_int (int m)))
               = (Inr (Num (real_of_int ?kz)), st\<lparr>seed_priv := Num (real_of_int (lcg s))\<rparr>)"
    using nextRange_priv_pos [OF assms(1), of "Num (real_of_int (int m))"] by simp
  moreover have "real (nat ?kz) = real_of_int ?kz" using kz(1) by simp
  moreover have "nat ?kz < m" using kz by linarith
  ultimately show ?thesis by metis
qed

lemma all_placed:
  assumes "distinct p" and "set p \<subseteq> {0..<n}" and "length p = n"
  shows "set p = {0..<n}"
proof -
  have "card (set p) = card {0..<n}" using assms(1,3) by (simp add: distinct_card)
  then show ?thesis using assms(2) by (simp add: card_subset_eq)
qed

lemma randomInts_loop_perm:
  assumes "placed_inv n placed set_arr src" and "length placed < n"
    and "seed_priv st = Num (real_of_int s)"
  shows "\<exists>p st'. randomInts_loop n (int (n - length placed)) (length placed) set_arr src st
                    = (Inr (map (\<lambda>j. Some (int j)) p), st')
           \<and> distinct p \<and> set p = {0..<n} \<and> valid_seed (seed_priv st')"
  using assms
proof (induction "n - length placed" arbitrary: placed set_arr src st s)
  case 0
  then show ?case by simp
next
  case (Suc d)
  let ?c = "length placed"
  let ?st1 = "st\<lparr>seed_priv := Num (real_of_int (lcg s))\<rparr>"
  from Suc.prems(2) have m: "0 < n - ?c" by simp
  from nextRange_priv_draw [OF Suc.prems(3) m] obtain kk where
    draw: "nextRange_priv st (Num (real_of_int (int (n - ?c)))) = (Inr (Num (real kk)), ?st1)"
    and kk: "kk < n - ?c" by blast
  define j0 where "j0 = filter (\<lambda>i. i \<notin> set placed) [0..<n] ! kk"
  let ?set1 = "set_arr[?c := Some (int j0)]" and ?src1 = "src[j0 := Some (- 1)]"
  note step = placed_inv_step [OF Suc.prems(1) kk, folded j0_def]
  have set1: "?set1 = map (\<lambda>j. Some (int j)) (placed @ [j0])
                        @ replicate (n - length (placed @ [j0])) (Some (- 1))"
    using step(2) by (simp add: placed_inv_def)
  have unfold: "randomInts_loop n (int (n - ?c)) ?c set_arr src st
          = (if lt0 (js_get ?set1 (n - 1))
             then randomInts_loop n (int (n - ?c) - 1) (?c + 1) ?set1 ?src1 ?st1
             else (Inr ?set1, ?st1))"
    using draw step(1) m by (subst randomInts_loop.simps) simp
  show ?case
  proof (cases "?c + 1 = n")
    case True
    then have full: "?set1 = map (\<lambda>j. Some (int j)) (placed @ [j0])" using set1 by simp
    have n1: "n - 1 = ?c" using True by simp
    have "js_get ?set1 (n - 1) = Some (int j0)"
      unfolding full n1 by (simp add: js_get_def nth_append)
    then have "randomInts_loop n (int (n - ?c)) ?c set_arr src st
                 = (Inr (map (\<lambda>j. Some (int j)) (placed @ [j0])), ?st1)"
      using unfold full by simp
    moreover have "distinct (placed @ [j0])" "set (placed @ [j0]) \<subseteq> {0..<n}"
      using step(2) by (simp_all add: placed_inv_def)
    then have "distinct (placed @ [j0])" "set (placed @ [j0]) = {0..<n}"
      using True all_placed [of "placed @ [j0]" n] by simp_all
    moreover have "valid_seed (seed_priv ?st1)"
      using lcg_range [of s] by (simp add: valid_seed_def)
    ultimately show ?thesis by blast
  next
    case False
    then have less: "length (placed @ [j0]) < n" using Suc.prems(2) by simp
    have "js_get ?set1 (n - 1) = Some (- 1)"
      unfolding set1 using less by (simp add: js_get_def nth_append)
    then have t: "lt0 (js_get ?set1 (n - 1))" by simp
    have e1: "randomInts_loop n (int (n - ?c)) ?c set_arr src st
                = randomInts_loop n (int (n - ?c) - 1) (?c + 1) ?set1 ?src1 ?st1"
      using unfold t by (simp only: if_True)
    have e2: "int (n - ?c) - 1 = int (n - length (placed @ [j0]))" using less by simp
    have e3: "?c + 1 = length (placed @ [j0])" by simp
    have "randomInts_loop n (int (n - ?c)) ?c set_arr src st
                 = randomInts_loop n (int (n - length (placed @ [j0]))) (length (placed @ [j0])) ?set1 ?src1 ?st1"
      using e1 unfolding e2 e3 .
    moreover have "d = n - length (placed @ [j0])" using Suc.hyps(2) by simp
    from Suc.hyps(1) [OF this step(2) less, of ?st1 "lcg s"]
    have "\<exists>p st'. randomInts_loop n (int (n - length (placed @ [j0]))) (length (placed @ [j0])) ?set1 ?src1 ?st1
                    = (Inr (map (\<lambda>j. Some (int j)) p), st')
           \<and> distinct p \<and> set p = {0..<n} \<and> valid_seed (seed_priv st')"
      by simp
    ultimately show ?thesis by simp
  qed
qed

lemma placed_inv_start:
  "placed_inv n [] (replicate n (Some (- 1))) (map (\<lambda>j. Some (int j)) [0..<n])"
  by (simp add: placed_inv_def)

lemma randomInts_permutation:
  assumes "seed_priv st = Num (real_of_int s)" and "0 < n" and "n < 4294967296"
  shows "\<exists>p st'. randomInts st n = (Inr (map (\<lambda>j. Some (int j)) p), st')
           \<and> length p = n \<and> distinct p \<and> set p = {0..<n} \<and> valid_seed (seed_priv st')"
proof -
  from randomInts_loop_perm [OF placed_inv_start _ assms(1), of n] assms(2)
  obtain p st' where
    r: "randomInts_loop n (int n) 0 (replicate n (Some (- 1))) (map (\<lambda>j. Some (int j)) [0..<n]) st
          = (Inr (map (\<lambda>j. Some (int j)) p), st')"
      "distinct p" "set p = {0..<n}" "valid_seed (seed_priv st')"
    by auto
  have "length p = n" using r(2,3) distinct_card [of p] by simp
  moreover have "randomInts st n = (Inr (map (\<lambda>j. Some (int j)) p), st')"
    using assms(3) r(1) by (simp add: randomInts_def fill_start)
  ultimately show ?thesis using r(2,3,4) by blast
qed

text \<open>From any integer seed, \<open>randomInts(1)\<close> is \<open>[0]\<close>.\<close>

lemma randomInts_one:
  assumes "seed_priv st = Num (real_of_int s)"
  shows "fst (randomInts st 1) = Inr [Some 0]"
proof -
  from randomInts_permutation [OF assms, of 1] obtain p st' where
    r: "randomInts st 1 = (Inr (map (\<lambda>j. Some (int j)) p), st')" "length p = 1" "set p = {0..<1}"
    by auto
  from r(2) obtain x where "p = [x]" by (cases p) auto
  with r(3) have "p = [0]" by simp
  with r(1) show ?thesis by simp
qed

text \<open>
  Claim C2 says that \<open>randomInts(0)\<close> returns an empty sequence. The body of the \<open>do\<close> loop
  runs before its test, so the first statement is \<open>nextRange_(0)\<close>, which throws
  \<open>n must be positive\<close>; the seed is unchanged. For \<open>0 < n < 2^32\<close> the result is a
  permutation of \<open>0..n-1\<close> (\<open>randomInts_permutation\<close>).
\<close>

theorem randomInts_zero_throws: "randomInts st 0 = (Inl NotPositive, st)"
  by (simp add: randomInts_def fill_start randomInts_loop.simps nextRange_priv_nonpos)

subsection \<open>The period of nextInt\<close>

text \<open>An affine map modulo \<open>2^k\<close> with \<open>a mod 4 = 1\<close> and \<open>c\<close> odd returns to its start after
  \<open>n\<close> steps exactly when \<open>2^k\<close> divides \<open>n\<close>: \<open>n\<close> steps take \<open>s\<close> to
  \<open>a^n s + c (1 + a + ... + a^(n-1))\<close>, and the sum is divisible by exactly the powers of
  two that divide \<open>n\<close>.\<close>

lemma affine_mod: "affine a c m (x mod m) = affine a c m x"
  unfolding affine_def by (metis mod_add_left_eq mod_mult_left_eq)

lemma affine_funpow:
  "(affine a c m ^^ n) s mod m = (a ^ n * s + c * geo a n) mod m"
proof (induction n)
  case 0
  then show ?case by simp
next
  case (Suc n)
  have "(affine a c m ^^ Suc n) s = affine a c m ((affine a c m ^^ n) s mod m)"
    by (simp add: affine_mod)
  also have "\<dots> = affine a c m ((a ^ n * s + c * geo a n) mod m)"
    by (simp only: Suc.IH)
  also have "\<dots> = ((a ^ n * s + c * geo a n) * a + c) mod m"
    by (simp only: affine_mod) (simp add: affine_def)
  also have "(a ^ n * s + c * geo a n) * a + c = a ^ Suc n * s + c * geo a (Suc n)"
    by (simp add: algebra_simps)
  finally show ?case by simp
qed

lemma power_geo: "a ^ n = 1 + (a - 1) * geo a n"
proof (induction n)
  case 0
  then show ?case by simp
next
  case (Suc n)
  have "a ^ Suc n = a * (1 + (a - 1) * geo a n)" using Suc by simp
  also have "\<dots> = 1 + (a - 1) * geo a (Suc n)" by (simp add: algebra_simps)
  finally show ?case .
qed

lemma geo_add: "geo a (i + j) = geo a i + a ^ i * geo a j"
  by (induction i) (simp_all add: algebra_simps)

lemma geo_double: "geo a (2 * j) = geo a j * (1 + a ^ j)"
proof -
  have "geo a (j + j) = geo a j * (1 + a ^ j)"
    unfolding geo_add by (simp add: algebra_simps)
  then show ?thesis by (simp only: mult_2)
qed

lemma even_geo: "odd a \<Longrightarrow> even (geo a n) \<longleftrightarrow> even n"
  by (induction n) simp_all

lemma power_mod4:
  fixes a :: int
  assumes "a mod 4 = 1"
  shows "a ^ j mod 4 = 1"
proof (induction j)
  case 0
  then show ?case by simp
next
  case (Suc j)
  have "(a * a ^ j) mod 4 = ((a mod 4) * (a ^ j mod 4)) mod 4"
    by (rule mod_mult_eq [symmetric])
  also have "\<dots> = 1" by (simp only: Suc.IH assms) simp
  finally show ?case by simp
qed

lemma one_plus_power:
  fixes a :: int
  assumes "a mod 4 = 1"
  shows "\<exists>q. odd q \<and> 1 + a ^ j = 2 * q"
proof -
  define p where "p = a ^ j"
  have "p mod 4 = 1" unfolding p_def by (rule power_mod4 [OF assms])
  then have "\<exists>q. 1 + p = 2 * q \<and> q mod 2 = 1" by presburger
  then show ?thesis unfolding p_def by (auto simp: odd_iff_mod_2_eq_one)
qed

lemma pow2_dvd_geo:
  fixes a :: int
  assumes "a mod 4 = 1"
  shows "2 ^ k dvd geo a n \<longleftrightarrow> (2::nat) ^ k dvd n"
proof (induction k arbitrary: n)
  case 0
  then show ?case by simp
next
  case (Suc k)
  have odd_a: "odd a" using assms by presburger
  show ?case
  proof (cases "even n")
    case False
    then have "odd (geo a n)" by (simp add: even_geo [OF odd_a])
    then have "\<not> 2 ^ Suc k dvd geo a n"
      by (metis dvd_trans dvd_triv_left power_Suc)
    moreover have "\<not> (2::nat) ^ Suc k dvd n"
      using False by (metis dvd_trans dvd_triv_left power_Suc)
    ultimately show ?thesis by simp
  next
    case True
    then obtain j where n: "n = 2 * j" by (auto elim: evenE)
    from one_plus_power [OF assms, of j] obtain q where q: "odd q" "1 + a ^ j = 2 * q"
      by blast
    have cop: "coprime ((2::int) ^ k) q" using q(1) by simp
    have "geo a n = 2 * (geo a j * q)" using n q(2) geo_double [of a j] by simp
    then have "2 ^ Suc k dvd geo a n \<longleftrightarrow> 2 ^ k dvd geo a j * q" by simp
    also have "\<dots> \<longleftrightarrow> 2 ^ k dvd geo a j"
      using cop by (simp add: coprime_dvd_mult_left_iff)
    also have "\<dots> \<longleftrightarrow> (2::nat) ^ k dvd j" by (rule Suc.IH)
    also have "\<dots> \<longleftrightarrow> (2::nat) ^ Suc k dvd n" using n by simp
    finally show ?thesis .
  qed
qed

lemma affine_range:
  assumes "0 < m" and "0 \<le> s" and "s < m"
  shows "0 \<le> (affine a c m ^^ n) s \<and> (affine a c m ^^ n) s < m"
  using assms by (cases n) (simp_all add: affine_def)

lemma affine_returns:
  fixes a c s :: int
  assumes "a mod 4 = 1" and "odd c" and "0 \<le> s" and "s < 2 ^ k"
  shows "(affine a c (2 ^ k) ^^ n) s = s \<longleftrightarrow> (2::nat) ^ k dvd n"
proof -
  let ?m = "(2::int) ^ k"
  have "0 < ?m" by simp
  then have "0 \<le> (affine a c ?m ^^ n) s \<and> (affine a c ?m ^^ n) s < ?m"
    using assms(3,4) by (rule affine_range)
  then have "(affine a c ?m ^^ n) s = (affine a c ?m ^^ n) s mod ?m" by simp
  also have "\<dots> = (a ^ n * s + c * geo a n) mod ?m" by (rule affine_funpow)
  finally have "(affine a c ?m ^^ n) s = s \<longleftrightarrow> (a ^ n * s + c * geo a n) mod ?m = s mod ?m"
    using assms(3,4) by simp
  also have "\<dots> \<longleftrightarrow> ?m dvd (a ^ n * s + c * geo a n) - s"
    by (simp add: mod_eq_dvd_iff)
  also have "(a ^ n * s + c * geo a n) - s = geo a n * ((a - 1) * s + c)"
    by (simp add: power_geo [of a n] algebra_simps)
  also have "?m dvd geo a n * ((a - 1) * s + c) \<longleftrightarrow> ?m dvd geo a n"
  proof -
    have "even (a - 1)" using assms(1) by presburger
    then have "odd ((a - 1) * s + c)" using assms(2) by simp
    then have "coprime ?m ((a - 1) * s + c)" by simp
    then show ?thesis by (rule coprime_dvd_mult_left_iff)
  qed
  also have "\<dots> \<longleftrightarrow> (2::nat) ^ k dvd n" by (rule pow2_dvd_geo [OF assms(1)])
  finally show ?thesis .
qed

lemma lcg_affine: "lcg = affine 1664525 1013904223 (2 ^ 32)"
  by (simp add: fun_eq_iff lcg_def affine_def)

lemma lcg_returns:
  assumes "0 \<le> s" and "s < 4294967296"
  shows "(lcg ^^ n) s = s \<longleftrightarrow> 4294967296 dvd n"
proof -
  have "(1664525::int) mod 4 = 1" "odd (1013904223::int)" "s < 2 ^ 32"
    using assms(2) by simp_all
  then have "(affine 1664525 1013904223 (2 ^ 32) ^^ n) s = s \<longleftrightarrow> (2::nat) ^ 32 dvd n"
    using assms(1) by (intro affine_returns)
  then show ?thesis unfolding lcg_affine by simp
qed

lemma nextInt_times_int:
  assumes "seed_priv st = Num (real_of_int s)"
  shows "nextInt_times n st = (Inr (), st\<lparr>seed_priv := Num (real_of_int ((lcg ^^ n) s))\<rparr>)"
  using assms
proof (induction n arbitrary: st s)
  case 0
  then show ?case by simp
next
  case (Suc n)
  let ?st1 = "st\<lparr>seed_priv := Num (real_of_int (lcg s))\<rparr>"
  have "nextInt_times (Suc n) st = nextInt_times n ?st1"
    by (simp add: nextInt_int [OF Suc.prems])
  also have "\<dots> = (Inr (), ?st1\<lparr>seed_priv := Num (real_of_int ((lcg ^^ n) (lcg s)))\<rparr>)"
    by (rule Suc.IH) simp
  finally show ?case by (simp add: funpow_swap1)
qed

text \<open>
  Claim C9. With \<open>m = 2^32\<close>, \<open>a = 1664525\<close>, \<open>c = 1013904223\<close> and any seed in \<open>[0, m)\<close>,
  \<open>m\<close> calls of \<open>nextInt()\<close> bring the seed back to where it started, and no smaller
  positive number of calls does: the seed after \<open>n\<close> calls is the starting seed exactly
  when \<open>m\<close> divides \<open>n\<close>. No call throws.
\<close>

theorem nextInt_full_period:
  assumes "seed_priv st = Num (real_of_int s)" and "0 \<le> s" and "s < 2 ^ 32"
  shows "nextInt_times (2 ^ 32) st = (Inr (), st)
       \<and> (\<forall>n. 0 < n \<and> n < 2 ^ 32 \<longrightarrow> nextInt_times n st \<noteq> (Inr (), st))
       \<and> (\<forall>n. fst (nextInt_times n st) = Inr ()
              \<and> (getSeed (snd (nextInt_times n st)) = getSeed st \<longleftrightarrow> 2 ^ 32 dvd n))"
proof -
  have ret: "(lcg ^^ n) s = s \<longleftrightarrow> 4294967296 dvd n" for n
    using assms(2,3) by (intro lcg_returns) simp_all
  have run: "nextInt_times n st = (Inr (), st\<lparr>seed_priv := Num (real_of_int ((lcg ^^ n) s))\<rparr>)" for n
    by (rule nextInt_times_int [OF assms(1)])
  have same: "st\<lparr>seed_priv := Num (real_of_int x)\<rparr> = st \<longleftrightarrow> x = s" for x
  proof
    assume "st\<lparr>seed_priv := Num (real_of_int x)\<rparr> = st"
    then have "seed_priv (st\<lparr>seed_priv := Num (real_of_int x)\<rparr>) = seed_priv st" by simp
    then show "x = s" using assms(1) by simp
  next
    assume "x = s"
    then show "st\<lparr>seed_priv := Num (real_of_int x)\<rparr> = st" using assms(1) by simp
  qed
  have a: "nextInt_times (2 ^ 32) st = (Inr (), st)"
    using ret [of "2 ^ 32"] run [of "2 ^ 32"] same by simp
  have b: "\<forall>n. 0 < n \<and> n < 2 ^ 32 \<longrightarrow> nextInt_times n st \<noteq> (Inr (), st)"
  proof (intro allI impI)
    fix n :: nat
    assume n: "0 < n \<and> n < 2 ^ 32"
    then have "\<not> (4294967296::nat) dvd n" by (auto dest: dvd_imp_le)
    then have "(lcg ^^ n) s \<noteq> s" using ret [of n] by simp
    then show "nextInt_times n st \<noteq> (Inr (), st)" using run [of n] same by simp
  qed
  have c: "\<forall>n. fst (nextInt_times n st) = Inr ()
              \<and> (getSeed (snd (nextInt_times n st)) = getSeed st \<longleftrightarrow> 2 ^ 32 dvd n)"
    using ret run assms(1) by (simp add: getSeed_def)
  from a b c show ?thesis by blast
qed

theorem nextInt_full_period_witness:
  "nextInt_times 4294967296 \<lparr>seed_priv = Num 0\<rparr> = (Inr (), \<lparr>seed_priv = Num 0\<rparr>)
   \<and> nextInt_times 1 \<lparr>seed_priv = Num 0\<rparr> \<noteq> (Inr (), \<lparr>seed_priv = Num 0\<rparr>)"
proof -
  have "nextInt_times (2 ^ 32) \<lparr>seed_priv = Num 0\<rparr> = (Inr (), \<lparr>seed_priv = Num 0\<rparr>)
       \<and> (\<forall>n. 0 < n \<and> n < 2 ^ 32 \<longrightarrow> nextInt_times n \<lparr>seed_priv = Num 0\<rparr> \<noteq> (Inr (), \<lparr>seed_priv = Num 0\<rparr>))"
    using nextInt_full_period [of "\<lparr>seed_priv = Num 0\<rparr>" 0] by simp
  then have "nextInt_times (2 ^ 32) \<lparr>seed_priv = Num 0\<rparr> = (Inr (), \<lparr>seed_priv = Num 0\<rparr>)"
    and "(0::nat) < 1 \<and> (1::nat) < 2 ^ 32 \<longrightarrow> nextInt_times 1 \<lparr>seed_priv = Num 0\<rparr> \<noteq> (Inr (), \<lparr>seed_priv = Num 0\<rparr>)"
    by blast+
  then show ?thesis by simp
qed

subsection \<open>The seed invariant\<close>

lemma valid_seed_lcg: "valid_seed (Num (real_of_int (lcg s)))"
  using lcg_range [of s] by (simp add: valid_seed_def)

lemma RandomLCG_valid:
  assumes "RandomLCG now seed = Inr st"
  shows "valid_seed (seed_priv st)"
proof -
  let ?x = "js_rem (js_floor (js_abs (case seed of None \<Rightarrow> now | Some s \<Rightarrow> s))) (Num RandomLCG_m)"
  from assms have "checkSeed ?x = None" "st = \<lparr>seed_priv = ?x\<rparr>"
    by (auto simp: RandomLCG_def Let_def split: option.splits if_splits)
  then show ?thesis by (simp add: checkSeed_valid)
qed

lemma nextRange_valid:
  assumes "seed_priv st = Num (real_of_int s)"
  shows "valid_seed (seed_priv (snd (nextRange st n))) \<or> snd (nextRange st n) = st"
proof (cases "js_le n (Num 0)")
  case True
  then show ?thesis by (simp add: nextRange_eq nextRange_priv_nonpos)
next
  case False
  then show ?thesis
    using nextRange_priv_pos [OF assms False] by (simp add: nextRange_eq valid_seed_lcg)
qed

lemma randomInts_valid:
  assumes "seed_priv st = Num (real_of_int s)"
  shows "valid_seed (seed_priv (snd (randomInts st n))) \<or> snd (randomInts st n) = st"
proof -
  consider "n = 0" | "4294967296 \<le> n" | "0 < n" "n < 4294967296" by linarith
  then show ?thesis
  proof cases
    case 1
    then show ?thesis
      by (simp add: randomInts_def fill_start randomInts_loop.simps nextRange_priv_nonpos)
  next
    case 2
    then show ?thesis by (simp add: randomInts_def)
  next
    case 3
    from randomInts_permutation [OF assms 3] show ?thesis by auto
  qed
qed

lemma step_valid:
  assumes "valid_seed (seed_priv st)"
  shows "valid_seed (seed_priv (snd (step st c)))"
proof -
  from assms obtain s where s: "seed_priv st = Num (real_of_int s)"
    by (auto simp: valid_seed_iff)
  show ?thesis
  proof (cases c)
    case GetModulus
    then show ?thesis using assms by simp
  next
    case GetSeed
    then show ?thesis using assms by simp
  next
    case NextInt
    then show ?thesis by (simp add: returning_def nextInt_int [OF s] valid_seed_lcg)
  next
    case NextFloat
    then show ?thesis by (simp add: returning_def nextFloat_int [OF s] valid_seed_lcg)
  next
    case (NextRange n)
    then show ?thesis using nextRange_valid [OF s, of n] assms
      by (auto simp: returning_def split: prod.splits sum.splits)
  next
    case (RandomInts n)
    then show ?thesis using randomInts_valid [OF s, of n] assms
      by (auto simp: returning_def split: prod.splits sum.splits)
  next
    case (SetSeed x)
    then show ?thesis using assms by (simp add: returning_def setSeed_cases)
  qed
qed

lemma run_valid:
  "valid_seed (seed_priv st) \<Longrightarrow> valid_seed (seed_priv (snd (run st cs)))"
proof (induction cs arbitrary: st)
  case Nil
  then show ?case by simp
next
  case (Cons c cs)
  from step_valid [OF Cons.prems, of c] Cons.IH [of "snd (step st c)"]
  show ?case by (simp add: split_beta)
qed

lemma snd_returning: "snd (returning f r) = snd r"
  by (simp add: returning_def split: prod.splits sum.splits)

lemma RandomLCG_now: "RandomLCG now None = RandomLCG now' (Some now)"
  by (simp add: RandomLCG_def)

text \<open>
  Claim C6. The seed is an integer in \<open>[0, m)\<close>, \<open>m = 2^32\<close>, after every construction
  that returns, with a seed argument or with the clock value, and every operation keeps
  it so: from a state with a valid seed, \<open>nextInt\<close> and \<open>nextFloat\<close> do not throw, and the
  state after \<open>nextInt\<close>, \<open>nextFloat\<close>, \<open>nextRange\<close>, \<open>randomInts\<close>, \<open>setSeed\<close>, and after any
  sequence of calls, has a valid seed, whether the call returned or threw.
\<close>

theorem seed_invariant:
  "(RandomLCG now seed = Inr st0 \<longrightarrow> valid_seed (seed_priv st0))
   \<and> (valid_seed (seed_priv st) \<longrightarrow>
         (\<exists>x. fst (nextInt st) = Inr x) \<and> valid_seed (seed_priv (snd (nextInt st)))
       \<and> (\<exists>x. fst (nextFloat st) = Inr x) \<and> valid_seed (seed_priv (snd (nextFloat st)))
       \<and> valid_seed (seed_priv (snd (nextRange st n)))
       \<and> valid_seed (seed_priv (snd (randomInts st k)))
       \<and> valid_seed (seed_priv (snd (setSeed st y)))
       \<and> valid_seed (seed_priv (snd (run st cs))))"
proof (intro conjI impI)
  assume "RandomLCG now seed = Inr st0"
  then show "valid_seed (seed_priv st0)" by (rule RandomLCG_valid)
next
  assume v: "valid_seed (seed_priv st)"
  then obtain s where s: "seed_priv st = Num (real_of_int s)"
    by (auto simp: valid_seed_iff)
  show "\<exists>x. fst (nextInt st) = Inr x" by (simp add: nextInt_int [OF s])
  show "\<exists>x. fst (nextFloat st) = Inr x" by (simp add: nextFloat_int [OF s])
  show "valid_seed (seed_priv (snd (nextInt st)))"
    using step_valid [OF v, of NextInt] by (simp add: snd_returning)
  show "valid_seed (seed_priv (snd (nextFloat st)))"
    using step_valid [OF v, of NextFloat] by (simp add: snd_returning)
  show "valid_seed (seed_priv (snd (nextRange st n)))"
    using step_valid [OF v, of "NextRange n"] by (simp add: snd_returning)
  show "valid_seed (seed_priv (snd (randomInts st k)))"
    using step_valid [OF v, of "RandomInts k"] by (simp add: snd_returning)
  show "valid_seed (seed_priv (snd (setSeed st y)))"
    using step_valid [OF v, of "SetSeed y"] by (simp add: snd_returning)
  show "valid_seed (seed_priv (snd (run st cs)))" by (rule run_valid [OF v])
qed

theorem seed_invariant_witness:
  "RandomLCG (Num 1234.5) None = Inr \<lparr>seed_priv = Num 1234\<rparr>
   \<and> valid_seed (Num 1234)
   \<and> valid_seed (seed_priv (snd (nextInt \<lparr>seed_priv = Num 1234\<rparr>)))
   \<and> valid_seed (seed_priv (snd (randomInts \<lparr>seed_priv = Num 1234\<rparr> 3)))
   \<and> valid_seed (seed_priv (snd (setSeed \<lparr>seed_priv = Num 1234\<rparr> (Num 7))))"
proof -
  have f: "\<lfloor>\<bar>1234.5 :: real\<bar>\<rfloor> = 1234" by (simp add: floor_eq_iff)
  have c: "RandomLCG (Num 1234.5) None = Inr \<lparr>seed_priv = Num 1234\<rparr>"
    unfolding RandomLCG_now [of _ "Num 0"] RandomLCG_Num f by simp
  have v: "valid_seed (seed_priv \<lparr>seed_priv = Num 1234\<rparr>)" by (simp add: valid_seed_def)
  from c v seed_invariant [of "Num 1234.5" None "\<lparr>seed_priv = Num 1234\<rparr>"
      "\<lparr>seed_priv = Num 1234\<rparr>" "Num 6" 3 "Num 7" "[]"]
  show ?thesis by simp
qed

subsection \<open>Determinism\<close>




section \<open>Properties of CardioidPath\<close>

lemma a_priv_CardioidPath [simp]:
  "a_priv (CardioidPath locale radius start finish closedLoop name localName) = radius"
  by (simp add: CardioidPath_def Let_def)

text \<open>
  Claim C10. For a path constructed with radius \<open>a\<close> and every real \<open>t\<close>,
  \<open>x_func(t) = a sin t (1 + cos t)\<close> and \<open>y_func(t) = - a cos t (1 + cos t)\<close>: the cardioid
  turned by 90 degrees, so that \<open>t = 0\<close> gives the point \<open>(0, -2a)\<close> and not \<open>(2a, 0)\<close>. The
  values depend on \<open>t\<close> and the radius only, whatever the other arguments of the
  constructor; the two methods assign to nothing, so they are functions of the object
  and \<open>t\<close>. Omitted, \<open>start\<close>, \<open>finish\<close> and \<open>closedLoop\<close> are \<open>-\<pi>\<close>, \<open>\<pi>\<close> and \<open>false\<close>.
\<close>

theorem CardioidPath_curve:
  "x_func (CardioidPath locale a start finish closedLoop name localName) t
     = a * sin t * (1 + cos t)
   \<and> y_func (CardioidPath locale a start finish closedLoop name localName) t
     = - a * cos t * (1 + cos t)
   \<and> x_func (CardioidPath locale a start finish closedLoop name localName) t
     = x_func (CardioidPath locale' a start' finish' closedLoop' name' localName') t
   \<and> y_func (CardioidPath locale a start finish closedLoop name localName) t
     = y_func (CardioidPath locale' a start' finish' closedLoop' name' localName') t
   \<and> x_func (CardioidPath locale a start finish closedLoop name localName) 0 = 0
   \<and> y_func (CardioidPath locale a start finish closedLoop name localName) 0 = - 2 * a
   \<and> super_start (CardioidPath locale a None finish closedLoop name localName) = Num (- pi)
   \<and> super_finish (CardioidPath locale a start None closedLoop name localName) = Num pi
   \<and> super_closedLoop (CardioidPath locale a start finish None name localName) = False"
  by (simp add: x_func_def y_func_def Let_def) (simp add: CardioidPath_def Let_def)

end
